theory Spec2Isabelle
  imports Complex_Main "HOL-Library.Multiset" "HOL-Library.Word"
begin

section \<open>Values of the embedding\<close>

text \<open>
  The module \<^verbatim>\<open>repyability.py\<close> computes on numpy arrays. An array of dtype int64 is a
  list of 64-bit words, read as signed numbers by \<open>sint\<close>: sums, differences and products
  wrap around as numpy's do. An array of dtype float64 is a list of \<open>npfloat\<close>: a finite
  value is an exact real (rounding and overflow are not modelled, and there is no negative
  zero), and the three non-finite values of IEEE arithmetic are kept apart, because numpy's
  array arithmetic does not raise on a zero divisor: it yields \<open>inf\<close>, \<open>-inf\<close> or \<open>nan\<close>
  (with a warning) and goes on. The counts and the censoring codes the risk-set builder
  receives are arrays of either dtype, an \<open>ndarray\<close>. The times are an int64 array throughout;
  they are only compared, sorted and indexed, never added, and are the list of their values.

  Python exceptions are values of \<open>error\<close>; a function that can raise returns
  \<open>error + 'a\<close>, with \<open>Inl\<close> the exception.
\<close>

datatype error =
    TypeError
  | IndexError
  | ZeroDivisionError
  | UnboundLocalError
  | UFuncTypeError
  | PyException

datatype npfloat = Fin real | PInf | NInf | NaN

fun fl_neg :: "npfloat \<Rightarrow> npfloat" where
  "fl_neg (Fin a) = Fin (- a)"
| "fl_neg PInf = NInf"
| "fl_neg NInf = PInf"
| "fl_neg NaN = NaN"

fun fl_add :: "npfloat \<Rightarrow> npfloat \<Rightarrow> npfloat" where
  "fl_add (Fin a) (Fin b) = Fin (a + b)"
| "fl_add NaN _ = NaN"
| "fl_add _ NaN = NaN"
| "fl_add PInf NInf = NaN"
| "fl_add NInf PInf = NaN"
| "fl_add PInf _ = PInf"
| "fl_add _ PInf = PInf"
| "fl_add NInf _ = NInf"
| "fl_add _ NInf = NInf"

definition fl_sub :: "npfloat \<Rightarrow> npfloat \<Rightarrow> npfloat" where
  "fl_sub a b = fl_add a (fl_neg b)"

definition inf_of_sign :: "bool \<Rightarrow> npfloat" where
  "inf_of_sign positive = (if positive then PInf else NInf)"

fun fl_mul :: "npfloat \<Rightarrow> npfloat \<Rightarrow> npfloat" where
  "fl_mul (Fin a) (Fin b) = Fin (a * b)"
| "fl_mul NaN _ = NaN"
| "fl_mul _ NaN = NaN"
| "fl_mul (Fin a) PInf = (if a = 0 then NaN else inf_of_sign (0 < a))"
| "fl_mul (Fin a) NInf = (if a = 0 then NaN else inf_of_sign (a < 0))"
| "fl_mul PInf (Fin b) = (if b = 0 then NaN else inf_of_sign (0 < b))"
| "fl_mul NInf (Fin b) = (if b = 0 then NaN else inf_of_sign (b < 0))"
| "fl_mul PInf PInf = PInf"
| "fl_mul NInf NInf = PInf"
| "fl_mul PInf NInf = NInf"
| "fl_mul NInf PInf = NInf"

fun fl_div :: "npfloat \<Rightarrow> npfloat \<Rightarrow> npfloat" where
  "fl_div (Fin a) (Fin b) =
     (if b \<noteq> 0 then Fin (a / b)
      else if a = 0 then NaN
      else inf_of_sign (0 < a))"
| "fl_div NaN _ = NaN"
| "fl_div _ NaN = NaN"
| "fl_div (Fin a) PInf = Fin 0"
| "fl_div (Fin a) NInf = Fin 0"
| "fl_div PInf (Fin b) = inf_of_sign (0 \<le> b)"
| "fl_div NInf (Fin b) = inf_of_sign (b < 0)"
| "fl_div PInf PInf = NaN"
| "fl_div PInf NInf = NaN"
| "fl_div NInf PInf = NaN"
| "fl_div NInf NInf = NaN"

fun np_log :: "npfloat \<Rightarrow> npfloat" where
  "np_log (Fin a) = (if 0 < a then Fin (ln a) else if a = 0 then NInf else NaN)"
| "np_log PInf = PInf"
| "np_log NInf = NaN"
| "np_log NaN = NaN"

fun np_exp :: "npfloat \<Rightarrow> npfloat" where
  "np_exp (Fin a) = Fin (exp a)"
| "np_exp PInf = PInf"
| "np_exp NInf = Fin 0"
| "np_exp NaN = NaN"

definition of_int_array :: "int list \<Rightarrow> npfloat list" where
  "of_int_array xs = map (\<lambda>v. Fin (real_of_int v)) xs"

type_synonym int64 = "64 word"

datatype ndarray = Int64Array "int64 list" | Float64Array "npfloat list"

text \<open>A number: a Python \<open>int\<close> or an \<open>np.int64\<close> by its value, or a float.\<close>

datatype npnum = IntNum int | FloatNum npfloat

definition int64_to_float :: "int64 \<Rightarrow> npfloat" where
  "int64_to_float w = Fin (real_of_int (sint w))"

fun to_float :: "ndarray \<Rightarrow> npfloat list" where
  "to_float (Int64Array ws) = map int64_to_float ws"
| "to_float (Float64Array fs) = fs"

fun nd_length :: "ndarray \<Rightarrow> nat" where
  "nd_length (Int64Array ws) = length ws"
| "nd_length (Float64Array fs) = length fs"

section \<open>Array primitives of numpy\<close>

text \<open>
  \<^verbatim>\<open>np.sum\<close>, \<open>np.cumsum\<close> and \<open>np.cumprod\<close> on an int64 and on a float64 array. On int64
  the additions are those of 64-bit words.
\<close>

definition np_sum :: "int64 list \<Rightarrow> int64" where
  "np_sum xs = foldl (+) 0 xs"

fun cumsum_from :: "int64 \<Rightarrow> int64 list \<Rightarrow> int64 list" where
  "cumsum_from acc [] = []"
| "cumsum_from acc (v # vs) = (acc + v) # cumsum_from (acc + v) vs"

definition np_cumsum :: "int64 list \<Rightarrow> int64 list" where
  "np_cumsum xs = cumsum_from 0 xs"

definition fl_sum :: "npfloat list \<Rightarrow> npfloat" where
  "fl_sum xs = foldl fl_add (Fin 0) xs"

fun fl_cumsum_from :: "npfloat \<Rightarrow> npfloat list \<Rightarrow> npfloat list" where
  "fl_cumsum_from acc [] = []"
| "fl_cumsum_from acc (v # vs) = fl_add acc v # fl_cumsum_from (fl_add acc v) vs"

definition fl_cumsum :: "npfloat list \<Rightarrow> npfloat list" where
  "fl_cumsum xs = fl_cumsum_from (Fin 0) xs"

fun fl_cumprod_from :: "npfloat \<Rightarrow> npfloat list \<Rightarrow> npfloat list" where
  "fl_cumprod_from acc [] = []"
| "fl_cumprod_from acc (v # vs) = fl_mul acc v # fl_cumprod_from (fl_mul acc v) vs"

definition fl_cumprod :: "npfloat list \<Rightarrow> npfloat list" where
  "fl_cumprod xs = fl_cumprod_from (Fin 1) xs"

text \<open>\<^verbatim>\<open>np.diff(H)\<close>: the differences of neighbours, one element shorter.\<close>

fun np_diff :: "npfloat list \<Rightarrow> npfloat list" where
  "np_diff (a # b # rest) = fl_sub b a # np_diff (b # rest)"
| "np_diff _ = []"

text \<open>
  \<^verbatim>\<open>np.unique(x)\<close> is the sorted list of the distinct values; with
  \<^verbatim>\<open>return_counts=True\<close> it also gives how often each occurs.
\<close>

definition np_unique :: "'a::linorder list \<Rightarrow> 'a list" where
  "np_unique xs = remdups_adj (sort xs)"

definition np_unique_counts :: "'a::linorder list \<Rightarrow> int64 list" where
  "np_unique_counts xs = map (\<lambda>v. of_nat (count_list xs v)) (np_unique xs)"

text \<open>
  \<^verbatim>\<open>np.argsort\<close> returns the indices that sort its argument. Its default sort is not
  stable, so the order it gives to equal keys is the library's choice; the functions below
  take the routine as a parameter \<open>argsort\<close>, and \<open>argsort_ok\<close> is all that is known of it.
  \<open>stable_argsort\<close> is one such routine, used to run the model.
\<close>

definition argsort_ok :: "(int list \<Rightarrow> nat list) \<Rightarrow> bool" where
  "argsort_ok argsort \<longleftrightarrow>
     (\<forall>xs. mset (argsort xs) = mset [0..<length xs] \<and> sorted (map ((!) xs) (argsort xs)))"

definition stable_argsort :: "int list \<Rightarrow> nat list" where
  "stable_argsort xs = sort_key ((!) xs) [0..<length xs]"

text \<open>
  \<^verbatim>\<open>a[idx]\<close> with an index array: numpy raises IndexError when an index is out of bounds.
\<close>

definition take_idx :: "'a list \<Rightarrow> nat list \<Rightarrow> error + 'a list" where
  "take_idx a idx =
     (if list_all (\<lambda>i. i < length a) idx then Inr (map ((!) a) idx) else Inl IndexError)"

text \<open>\<^verbatim>\<open>d[x == v] += amount\<close>: add to every position whose \<open>x\<close> entry equals \<open>v\<close>.\<close>

definition add_at :: "int list \<Rightarrow> int \<Rightarrow> int64 \<Rightarrow> int64 list \<Rightarrow> int64 list" where
  "add_at x v amount d = map (\<lambda>(xv, dv). if xv = v then dv + amount else dv) (zip x d)"

section \<open>The risk-set builder\<close>

text \<open>
  \<^verbatim>\<open>get_r_c_d(x, censored, counts)\<close> returns the tuple \<open>(x, r, c, d)\<close>. An absent argument
  (\<open>None\<close>) is \<open>None\<close> here as well. The column \<open>c\<close> is always \<open>np.zeros_like(x)\<close> with int64
  additions, so an int64 array; \<open>d\<close> and \<open>r\<close> take the dtype of the counts in the branch
  without censoring.
\<close>

type_synonym risk_table = "int list \<times> ndarray \<times> int64 list \<times> ndarray"

text \<open>\<^verbatim>\<open>N = len(x)\<close> without counts, \<^verbatim>\<open>N = np.sum(counts)\<close> with them.\<close>

definition population :: "int list \<Rightarrow> ndarray option \<Rightarrow> npnum" where
  "population x counts =
     (case counts of
        None \<Rightarrow> IntNum (int (length x))
      | Some (Int64Array cnt) \<Rightarrow> IntNum (sint (np_sum cnt))
      | Some (Float64Array cnt) \<Rightarrow> FloatNum (fl_sum cnt))"

text \<open>\<^verbatim>\<open>counts[idx]\<close> and \<^verbatim>\<open>censored[idx]\<close> on an array of either dtype.\<close>

definition nd_take_idx :: "ndarray \<Rightarrow> nat list \<Rightarrow> error + ndarray" where
  "nd_take_idx a idx =
     (case a of
        Int64Array ws \<Rightarrow> map_sum id Int64Array (take_idx ws idx)
      | Float64Array fs \<Rightarrow> map_sum id Float64Array (take_idx fs idx))"

text \<open>
  The accumulation loops \<^verbatim>\<open>for i in range(len(t))\<close> on int64 operands. Each step adds
  \<open>dinc\<close> into \<open>d\<close> and \<open>cinc\<close> into \<open>c\<close> at the row of \<open>t[i]\<close>.
\<close>

definition accumulate_loop ::
  "int list \<Rightarrow> (int \<times> int64 \<times> int64) list \<Rightarrow> int64 list \<times> int64 list
     \<Rightarrow> int64 list \<times> int64 list" where
  "accumulate_loop x steps dc =
     foldl (\<lambda>(d, c) (ti, dinc, cinc). (add_at x ti dinc d, add_at x ti cinc c)) dc steps"

text \<open>
  The same loops when \<open>1 - censored[i]\<close>, or its product with \<open>counts[i]\<close>, is a float: the
  in-place addition into the int64 array \<open>d\<close> raises UFuncTypeError in the first pass
  (numpy does not cast a float64 result into an int64 array). With an empty \<open>t\<close> there is no
  pass, and the empty table is returned; \<open>r0\<close> is the empty \<open>r\<close> of the dtype of \<open>N\<close>.
\<close>

definition float_operand_loop :: "int list \<Rightarrow> ndarray \<Rightarrow> error + risk_table" where
  "float_operand_loop t r0 =
     (if length t = 0 then Inr (np_unique t, r0, [], Int64Array []) else Inl UFuncTypeError)"

text \<open>
  \<^verbatim>\<open>r = np.repeat(N, len(d))\<close> and \<^verbatim>\<open>r[1::] = r[1::] - np.cumsum(d)[0:-1] - np.cumsum(c)[0:-1]\<close>,
  on int64 columns and on a float64 \<open>d\<close> with the int64 \<open>c\<close>.
\<close>

definition risk_set :: "int64 \<Rightarrow> int64 list \<Rightarrow> int64 list \<Rightarrow> int64 list" where
  "risk_set N d c =
     (case d of [] \<Rightarrow> []
      | _ # _ \<Rightarrow> N # map (\<lambda>(a, b). N - a - b) (zip (butlast (np_cumsum d)) (butlast (np_cumsum c))))"

definition fl_risk_set :: "npfloat \<Rightarrow> npfloat list \<Rightarrow> int64 list \<Rightarrow> npfloat list" where
  "fl_risk_set N d c =
     (case d of [] \<Rightarrow> []
      | _ # _ \<Rightarrow> N # map (\<lambda>(a, b). fl_sub (fl_sub N a) b)
                      (zip (butlast (fl_cumsum d)) (butlast (map int64_to_float (np_cumsum c)))))"

definition get_r_c_d ::
  "(int list \<Rightarrow> nat list) \<Rightarrow> int list \<Rightarrow> ndarray option \<Rightarrow> ndarray option
     \<Rightarrow> error + risk_table" where
  "get_r_c_d argsort x censored counts =
     (case censored of
        None \<Rightarrow>
          (case counts of
             None \<Rightarrow>
               (let N = of_nat (length x); d = np_unique_counts x; x' = np_unique x;
                    c = map (\<lambda>_. 0) x'
                in Inr (x', Int64Array (risk_set N d c), c, Int64Array d))
           | Some (Int64Array cnt) \<Rightarrow>
               (let N = np_sum cnt; idx = argsort x; x' = map ((!) x) idx in
                case take_idx cnt idx of
                  Inl e \<Rightarrow> Inl e
                | Inr d \<Rightarrow>
                    (let c = map (\<lambda>_. 0) x'
                     in Inr (x', Int64Array (risk_set N d c), c, Int64Array d)))
           | Some (Float64Array cnt) \<Rightarrow>
               (let N = fl_sum cnt; idx = argsort x; x' = map ((!) x) idx in
                case take_idx cnt idx of
                  Inl e \<Rightarrow> Inl e
                | Inr d \<Rightarrow>
                    (let c = map (\<lambda>_. 0) x'
                     in Inr (x', Float64Array (fl_risk_set N d c), c, Float64Array d))))
      | Some cens \<Rightarrow>
          (case counts of
             None \<Rightarrow>
               (let N = of_nat (length x); t = x; x' = np_unique t;
                    d0 = map (\<lambda>_. 0) x'; c0 = map (\<lambda>_. 0) x'
                in case cens of
                     Int64Array ce \<Rightarrow>
                       (if length ce < length t then Inl IndexError
                        else
                          (let (d, c) = accumulate_loop x'
                                 (map (\<lambda>i. (t ! i, 1 - ce ! i, ce ! i)) [0..<length t]) (d0, c0)
                           in Inr (x', Int64Array (risk_set N d c), c, Int64Array d)))
                   | Float64Array ce \<Rightarrow>
                       (if 0 < length t \<and> length ce = 0 then Inl IndexError
                        else float_operand_loop t (Int64Array [])))
           | Some cnt \<Rightarrow>
               (let idx = argsort x; xs = map ((!) x) idx in
                case nd_take_idx cnt idx of
                  Inl e \<Rightarrow> Inl e
                | Inr cnt' \<Rightarrow>
                   (case nd_take_idx cens idx of
                      Inl e \<Rightarrow> Inl e
                    | Inr cens' \<Rightarrow>
                       (let t = xs; x' = np_unique t;
                            d0 = map (\<lambda>_. 0) x'; c0 = map (\<lambda>_. 0) x'
                        in case (cens', cnt', cnt) of
                             (Int64Array ce, Int64Array cn, Int64Array cnt0) \<Rightarrow>
                               (let N = np_sum cnt0;
                                    (d, c) = accumulate_loop x'
                                      (map (\<lambda>i. (t ! i, (1 - ce ! i) * cn ! i, ce ! i * cn ! i))
                                         [0..<length t]) (d0, c0)
                                in Inr (x', Int64Array (risk_set N d c), c, Int64Array d))
                           | (_, _, Int64Array cnt0) \<Rightarrow> float_operand_loop t (Int64Array [])
                           | (_, _, Float64Array cnt0) \<Rightarrow>
                               float_operand_loop t (Float64Array []))))))"

text \<open>
  Valid input of the builder: int64 counts that are not negative, int64 censoring codes 0
  or 1. \<open>exact_population\<close> is \<open>N\<close> without wrap-around. \<open>int64_input\<close> says that the optional
  arrays are of dtype int64, \<open>nd_arrays_cover\<close> that they are at least as long as the times;
  \<open>arrays_cover\<close> is the same for the censoring codes of the fitters.
\<close>

definition valid_counts :: "ndarray option \<Rightarrow> bool" where
  "valid_counts counts =
     (case counts of
        None \<Rightarrow> True
      | Some (Int64Array cnt) \<Rightarrow> list_all (\<lambda>v. 0 \<le> sint v) cnt
      | Some (Float64Array cnt) \<Rightarrow> False)"

definition valid_censored :: "ndarray option \<Rightarrow> bool" where
  "valid_censored censored =
     (case censored of
        None \<Rightarrow> True
      | Some (Int64Array cens) \<Rightarrow> list_all (\<lambda>v. v = 0 \<or> v = 1) cens
      | Some (Float64Array cens) \<Rightarrow> False)"

definition exact_population :: "int list \<Rightarrow> ndarray option \<Rightarrow> int" where
  "exact_population x counts =
     (case counts of
        Some (Int64Array cnt) \<Rightarrow> sum_list (map sint cnt)
      | _ \<Rightarrow> int (length x))"

definition int64_input :: "ndarray option \<Rightarrow> bool" where
  "int64_input a = (case a of Some (Float64Array fs) \<Rightarrow> False | _ \<Rightarrow> True)"

definition nd_arrays_cover :: "int list \<Rightarrow> ndarray option \<Rightarrow> ndarray option \<Rightarrow> bool" where
  "nd_arrays_cover x censored counts \<longleftrightarrow>
     (case censored of None \<Rightarrow> True | Some cens \<Rightarrow> length x \<le> nd_length cens)
   \<and> (case counts of None \<Rightarrow> True | Some cnt \<Rightarrow> length x \<le> nd_length cnt)"

definition arrays_cover :: "int list \<Rightarrow> int list option \<Rightarrow> int list option \<Rightarrow> bool" where
  "arrays_cover x censored counts \<longleftrightarrow>
     (case censored of None \<Rightarrow> True | Some cens \<Rightarrow> length x \<le> length cens)
   \<and> (case counts of None \<Rightarrow> True | Some cnt \<Rightarrow> length x \<le> length cnt)"

definition table_sound :: "int64 \<Rightarrow> int64 list \<Rightarrow> int64 list \<Rightarrow> int64 list \<Rightarrow> bool" where
  "table_sound N r c d \<longleftrightarrow>
     r = risk_set N d c \<and> length c = length d
     \<and> (\<forall>v\<in>set d. 0 \<le> sint v) \<and> (\<forall>v\<in>set c. 0 \<le> sint v)
     \<and> sum_list (map sint d) + sum_list (map sint c) \<le> sint N"

section \<open>The non-parametric estimators\<close>

text \<open>
  The result object \<^verbatim>\<open>NonParametric\<close>, with the attributes the three estimators assign.
  (\<open>f\<close>, \<open>_dR\<close> and \<open>_ddR\<close> stay \<open>None\<close> in all of them and are left out.)
\<close>

record nonparametric =
  attr_R :: "npfloat list"
  attr_F :: "npfloat list"
  attr_h :: "npfloat list"
  attr_H :: "npfloat list"
  attr_c :: "int64 list"
  attr_x :: "int list"
  attr_d :: ndarray
  attr_N :: npnum
  attr_r :: ndarray
  attr_model :: string

definition one_minus :: "npfloat list \<Rightarrow> npfloat list" where
  "one_minus R = map (\<lambda>v. fl_sub (Fin 1) v) R"




text \<open>
  \<^verbatim>\<open>R = np.cumprod(np.divide((r - d), r))\<close>, \<open>H = -np.log(R)\<close>, then \<open>h[0] = H[0]\<close>, which
  raises IndexError on an empty table, and \<open>h[1::] = np.diff(H)\<close>. The difference \<open>r - d\<close>
  of two int64 arrays is an int64 array; with a float64 operand it is a float64 array.
\<close>

fun nd_sub :: "ndarray \<Rightarrow> ndarray \<Rightarrow> ndarray" where
  "nd_sub (Int64Array a) (Int64Array b) = Int64Array (map (\<lambda>(av, bv). av - bv) (zip a b))"
| "nd_sub a b = Float64Array (map (\<lambda>(av, bv). fl_sub av bv) (zip (to_float a) (to_float b)))"

definition km_ratio :: "ndarray \<Rightarrow> ndarray \<Rightarrow> npfloat list" where
  "km_ratio r d =
     map (\<lambda>(a, b). fl_div a b) (zip (to_float (nd_sub r d)) (to_float r))"

definition kaplan_meier ::
  "(int list \<Rightarrow> nat list) \<Rightarrow> int list \<Rightarrow> ndarray option \<Rightarrow> ndarray option
     \<Rightarrow> error + nonparametric" where
  "kaplan_meier argsort x censored counts =
     (let N = population x counts in
      case get_r_c_d argsort x censored counts of
        Inl e \<Rightarrow> Inl e
      | Inr (x', r, c, d) \<Rightarrow>
          (let R = fl_cumprod (km_ratio r d);
               H = map (\<lambda>v. fl_neg (np_log v)) R
           in case H of
                [] \<Rightarrow> Inl IndexError
              | H0 # _ \<Rightarrow>
                  (let h = H0 # np_diff H
                   in Inr \<lparr>attr_R = R, attr_F = one_minus R, attr_h = h, attr_H = H, attr_c = c,
                           attr_x = x', attr_d = d, attr_N = N, attr_r = r,
                           attr_model = ''Kaplan-Meier''\<rparr>)))"





section \<open>The Turnbull pass\<close>





section \<open>Adjusted ranks and plotting positions\<close>

text \<open>
  \<^verbatim>\<open>rank_adjust(t, censored=None)\<close> reindexes \<open>censored[idx]\<close> before it looks at whether
  \<open>censored\<close> is \<open>None\<close>. The loop runs \<open>i\<close> over \<open>range(0, n)\<close>.
\<close>

fun rank_loop :: "nat \<Rightarrow> nat \<Rightarrow> real \<Rightarrow> int list \<Rightarrow> npfloat list" where
  "rank_loop n i PMON [] = []"
| "rank_loop n i PMON (ci # rest) =
     (if ci = 0
      then (let rank = PMON + (real n + 1 - PMON) / (real n - real i + 2)
            in Fin rank # rank_loop n (i + 1) rank rest)
      else NaN # rank_loop n (i + 1) PMON rest)"

definition rank_adjust ::
  "(int list \<Rightarrow> nat list) \<Rightarrow> int list \<Rightarrow> int list option \<Rightarrow> error + npfloat list" where
  "rank_adjust argsort t censored =
     (let idx = argsort t;
          t' = map ((!) t) idx
      in case censored of
           None \<Rightarrow> Inl TypeError
         | Some cens \<Rightarrow>
             (case take_idx cens idx of
                Inl e \<Rightarrow> Inl e
              | Inr cens' \<Rightarrow> Inr (rank_loop (length t') 0 0 cens')))"

text \<open>The \<open>if\<close>/\<open>elif\<close> chain of \<open>plotting_positions\<close>; no branch assigns \<open>A, B\<close> for another name.\<close>

definition formula_constants :: "string \<Rightarrow> (real \<times> real) option" where
  "formula_constants formula =
     (if formula = ''Blom'' then Some (0.375, 0.25)
      else if formula = ''Median'' then Some (0.3, 0.4)
      else if formula = ''Modal'' then Some (1.0, - 1.0)
      else if formula = ''Midpoint'' then Some (0.5, 0.0)
      else if formula = ''Mean'' then Some (0.0, 1.0)
      else if formula = ''Weibull'' then Some (0.0, 1.0)
      else if formula = ''Benard'' then Some (0.3, 0.2)
      else if formula = ''Beard'' then Some (0.31, 0.38)
      else if formula = ''Hazen'' then Some (0.5, 0.0)
      else if formula = ''Filiben'' then Some (0.3175, 1.635)
      else if formula = ''Gringorten'' then Some (0.44, 0.12)
      else if formula = ''None'' then Some (0.0, 0.0)
      else if formula = ''Tukey'' then Some (1 / 3, 1 / 3)
      else if formula = ''DPW'' then Some (1.0, 0.0)
      else None)"

text \<open>
  The ranks \<open>plotting_positions\<close> starts from: \<^verbatim>\<open>rank_adjust(t, censored)\<close> when a censoring
  array is given, \<^verbatim>\<open>np.array(range(1, len(t) + 1))\<close> otherwise.
\<close>

definition pp_ranks ::
  "(int list \<Rightarrow> nat list) \<Rightarrow> int list \<Rightarrow> int list option \<Rightarrow> error + npfloat list" where
  "pp_ranks argsort t censored =
     (case censored of
        Some cens \<Rightarrow> rank_adjust argsort t (Some cens)
      | None \<Rightarrow> Inr (map (\<lambda>k. Fin (real k)) [1..<length t + 1]))"

text \<open>
  \<^verbatim>\<open>pp = (ranks - A)/(len(ranks) + B)\<close>; reading \<open>A\<close> when no branch has assigned it
  raises UnboundLocalError.
\<close>

definition plotting_positions ::
  "(int list \<Rightarrow> nat list) \<Rightarrow> int list \<Rightarrow> int list option \<Rightarrow> string \<Rightarrow> error + npfloat list" where
  "plotting_positions argsort t censored formula =
     (case pp_ranks argsort t censored of
        Inl e \<Rightarrow> Inl e
      | Inr ranks \<Rightarrow>
          (case formula_constants formula of
             None \<Rightarrow> Inl UnboundLocalError
           | Some (A, B) \<Rightarrow>
               Inr (map (\<lambda>rank. fl_div (fl_sub rank (Fin A)) (Fin (real (length ranks) + B)))
                      ranks)))"

text \<open>
  The plotting-position table as the specification lists it, name by name, with
  \<open>Mean/Weibull\<close> as the two names it stands for.
\<close>

definition spec_formula_table :: "(string \<times> real \<times> real) list" where
  "spec_formula_table =
     [(''Blom'', 0.375, 0.25), (''Median'', 0.3, 0.4), (''Modal'', 1.0, - 1.0),
      (''Midpoint'', 0.5, 0.0), (''Mean'', 0.0, 1.0), (''Weibull'', 0.0, 1.0),
      (''Benard'', 0.3, 0.2), (''Beard'', 0.31, 0.38), (''Hazen'', 0.5, 0.0),
      (''Filiben'', 0.3175, 1.635), (''Gringorten'', 0.44, 0.12), (''None'', 0.0, 0.0),
      (''Tukey'', 1 / 3, 1 / 3), (''DPW'', 1.0, 0.0)]"

section \<open>The rank-regression fitters\<close>

text \<open>
  The fitters call numerical routines of numpy and scipy whose code is not part of the
  module: \<^verbatim>\<open>np.polyfit(u, v, 1)\<close>, \<^verbatim>\<open>norm.ppf\<close> and \<^verbatim>\<open>scipy.optimize.minimize\<close> on the
  residual closure of each family. They are the fields of \<open>numlib\<close>, a parameter of the
  fitters; \<open>minimize\<close> receives what its closure reads (the sorted times, the sorted censoring
  codes and the plotting positions) and returns \<open>res.x\<close>. \<^verbatim>\<open>warnings.warn\<close> has no effect on
  the result.

  A fitter returns \<open>None\<close> or a tuple of floats: \<open>npfloat list option\<close>.
\<close>

record numlib =
  np_polyfit :: "npfloat list \<Rightarrow> npfloat list \<Rightarrow> error + (npfloat \<times> npfloat)"
  norm_ppf :: "npfloat \<Rightarrow> npfloat"
  minimize_weibull :: "int list \<Rightarrow> int list \<Rightarrow> npfloat list \<Rightarrow> error + (npfloat \<times> npfloat \<times> npfloat)"
  minimize_gumbel :: "int list \<Rightarrow> int list \<Rightarrow> npfloat list \<Rightarrow> error + (npfloat \<times> npfloat \<times> npfloat)"
  minimize_normal :: "int list \<Rightarrow> int list \<Rightarrow> npfloat list \<Rightarrow> error + (npfloat \<times> npfloat \<times> npfloat)"

text \<open>
  A library whose routines all raise. It serves to run a fitter on inputs for which no
  numerical routine is reached.
\<close>

definition failing_numlib :: numlib where
  "failing_numlib =
     \<lparr>np_polyfit = (\<lambda>u v. Inl TypeError), norm_ppf = (\<lambda>p. NaN),
      minimize_weibull = (\<lambda>t c f. Inl TypeError), minimize_gumbel = (\<lambda>t c f. Inl TypeError),
      minimize_normal = (\<lambda>t c f. Inl TypeError)\<rparr>"

text \<open>\<^verbatim>\<open>a[censored == 0]\<close>: the entries of \<open>a\<close> whose censoring code is 0.\<close>

definition uncensored :: "'a list \<Rightarrow> int list \<Rightarrow> 'a list" where
  "uncensored a censored = map fst (filter (\<lambda>(v, ci). ci = 0) (zip a censored))"

text \<open>
  The common head of the three fitters: the empty sample returns \<open>None\<close>, a missing
  \<open>censored\<close> becomes zeros, both arrays are sorted by time, and the plotting positions are
  computed. The result is \<open>None\<close> for the early return, or the sorted \<open>(t, censored, f)\<close>.
  The flag \<open>lfp\<close> of the source is written \<open>lfp'\<close> below.
\<close>

definition lsq_prepare ::
  "(int list \<Rightarrow> nat list) \<Rightarrow> int list \<Rightarrow> int list option \<Rightarrow> string
     \<Rightarrow> error + (int list \<times> int list \<times> npfloat list) option" where
  "lsq_prepare argsort t censored plotting =
     (if length t = 0 then Inr None
      else
        (let cens = (case censored of None \<Rightarrow> replicate (length t) 0 | Some c \<Rightarrow> c);
             idx = argsort t;
             t' = map ((!) t) idx
         in case take_idx cens idx of
              Inl e \<Rightarrow> Inl e
            | Inr cens' \<Rightarrow>
                (case plotting_positions argsort t' (Some cens') plotting of
                   Inl e \<Rightarrow> Inl e
                 | Inr f \<Rightarrow> Inr (Some (t', cens', f)))))"

definition weibull_lsq ::
  "numlib \<Rightarrow> (int list \<Rightarrow> nat list) \<Rightarrow> int list \<Rightarrow> int list option \<Rightarrow> string \<Rightarrow> bool \<Rightarrow> string
     \<Rightarrow> error + npfloat list option" where
  "weibull_lsq L argsort t censored plotting lfp' rr =
     (case lsq_prepare argsort t censored plotting of
        Inl e \<Rightarrow> Inl e
      | Inr None \<Rightarrow> Inr None
      | Inr (Some (t', cens, f)) \<Rightarrow>
          (let x = map np_log (of_int_array (uncensored t' cens));
               y = map (\<lambda>p. np_log (np_log (fl_div (Fin 1) (fl_sub (Fin 1) p)))) (uncensored f cens)
           in if \<not> lfp' then
                (if rr = ''y'' then
                   (case np_polyfit L x y of
                      Inl e \<Rightarrow> Inl e
                    | Inr (m0, m1) \<Rightarrow>
                        (let beta = m0; alpha = np_exp (fl_div m1 (fl_neg beta))
                         in Inr (Some [alpha, beta])))
                 else if rr = ''x'' then
                   (case np_polyfit L y x of
                      Inl e \<Rightarrow> Inl e
                    | Inr (m0, m1) \<Rightarrow>
                        (let beta = fl_div (Fin 1) m0;
                             alpha = np_exp (fl_div m1 (fl_mul beta m0))
                         in Inr (Some [alpha, beta])))
                 else Inr None)
              else
                (case minimize_weibull L t' cens f of
                   Inl e \<Rightarrow> Inl e
                 | Inr (p, alpha, beta) \<Rightarrow> Inr (Some [alpha, beta, p]))))"

definition gumbel_lsq ::
  "numlib \<Rightarrow> (int list \<Rightarrow> nat list) \<Rightarrow> int list \<Rightarrow> int list option \<Rightarrow> string \<Rightarrow> bool \<Rightarrow> string
     \<Rightarrow> error + npfloat list option" where
  "gumbel_lsq L argsort t censored plotting lfp' rr =
     (case lsq_prepare argsort t censored plotting of
        Inl e \<Rightarrow> Inl e
      | Inr None \<Rightarrow> Inr None
      | Inr (Some (t', cens, f)) \<Rightarrow>
          (let x = of_int_array (uncensored t' cens);
               y = map (\<lambda>p. fl_neg (np_log (fl_neg (np_log p)))) (uncensored f cens)
           in if \<not> lfp' then
                (if rr = ''y'' then
                   (case np_polyfit L x y of
                      Inl e \<Rightarrow> Inl e
                    | Inr (m, b) \<Rightarrow>
                        (let beta = fl_div (Fin 1) m; mu = fl_mul (fl_neg b) beta
                         in Inr (Some [mu, beta])))
                 else if rr = ''x'' then
                   (case np_polyfit L y x of
                      Inl e \<Rightarrow> Inl e
                    | Inr (m, b) \<Rightarrow>
                        (let beta = m; mu = fl_div (fl_mul beta b) m
                         in Inr (Some [mu, beta])))
                 else Inl PyException)
              else
                (case minimize_gumbel L t' cens f of
                   Inl e \<Rightarrow> Inl e
                 | Inr (p, mu, beta) \<Rightarrow> Inr (Some [mu, beta, p]))))"

definition normal_lsq ::
  "numlib \<Rightarrow> (int list \<Rightarrow> nat list) \<Rightarrow> int list \<Rightarrow> int list option \<Rightarrow> string \<Rightarrow> bool \<Rightarrow> string
     \<Rightarrow> error + npfloat list option" where
  "normal_lsq L argsort t censored plotting lfp' rr =
     (case lsq_prepare argsort t censored plotting of
        Inl e \<Rightarrow> Inl e
      | Inr None \<Rightarrow> Inr None
      | Inr (Some (t', cens, f)) \<Rightarrow>
          (let x = of_int_array (uncensored t' cens);
               y = map (norm_ppf L) (uncensored f cens)
           in if \<not> lfp' then
                (if rr = ''y'' then
                   (case np_polyfit L x y of
                      Inl e \<Rightarrow> Inl e
                    | Inr (m, b) \<Rightarrow>
                        (let sigma = fl_div (Fin 1) m; mu = fl_mul (fl_neg b) sigma
                         in Inr (Some [mu, sigma])))
                 else if rr = ''x'' then
                   (case np_polyfit L y x of
                      Inl e \<Rightarrow> Inl e
                    | Inr (m, b) \<Rightarrow>
                        (let sigma = m; mu = fl_div (fl_mul sigma b) m
                         in Inr (Some [mu, sigma])))
                 else Inl PyException)
              else
                (case minimize_normal L t' cens f of
                   Inl e \<Rightarrow> Inl e
                 | Inr (p, mu, sigma) \<Rightarrow> Inr (Some [mu, sigma, p]))))"

section \<open>Worked examples of the risk-set builder and of Kaplan-Meier\<close>

text \<open>
  Claim C1, as stated: for the times \<open>[2,3,5,8,10]\<close> with censoring codes \<open>[0,1,0,0,1]\<close>
  and no counts the builder returns the four-row table \<open>x = [2,5,8,10]\<close>, \<open>r = [5,4,3,2]\<close>,
  \<open>d = [1,0,1,1]\<close>, \<open>c = [0,1,0,1]\<close>. The builder does not return that table.
\<close>

theorem C1_four_row_table_refuted:
  "get_r_c_d stable_argsort [2, 3, 5, 8, 10] (Some (Int64Array [0, 1, 0, 0, 1])) None
     \<noteq> Inr ([2, 5, 8, 10], Int64Array [5, 4, 3, 2], [0, 1, 0, 1], Int64Array [1, 0, 1, 1])"
  by (simp add: get_r_c_d_def np_unique_def accumulate_loop_def add_at_def
        risk_set_def np_cumsum_def upt_rec)

text \<open>
  Claim C1, amended: for the times \<open>[2,3,5,8,10]\<close> with censoring codes \<open>[0,1,0,0,1]\<close> and
  no counts the builder returns one row for each distinct recorded time,
  \<open>x = [2,3,5,8,10]\<close>, with \<open>r = [5,4,3,2,1]\<close>, \<open>d = [1,0,1,1,0]\<close> and \<open>c = [0,1,0,0,1]\<close>:
  the time 3, at which there is only a censoring, has a row of its own with \<open>d = 0\<close>.
\<close>

theorem C1_five_row_table:
  "get_r_c_d stable_argsort [2, 3, 5, 8, 10] (Some (Int64Array [0, 1, 0, 0, 1])) None
     = Inr ([2, 3, 5, 8, 10], Int64Array [5, 4, 3, 2, 1], [0, 1, 0, 0, 1],
            Int64Array [1, 0, 1, 1, 0])"
  by (simp add: get_r_c_d_def np_unique_def accumulate_loop_def add_at_def
        risk_set_def np_cumsum_def upt_rec)

text \<open>
  Claim C3: for the times \<open>[5,6,7,9]\<close>, all uncensored and without counts (so \<open>N = 4\<close>),
  the Kaplan-Meier estimator returns the reliability sequence \<open>R = [0.75, 0.5, 0.25, 0.0]\<close>.
\<close>

theorem C3_kaplan_meier_example:
  "map_sum id attr_N (kaplan_meier stable_argsort [5, 6, 7, 9] None None) = Inr (IntNum 4)
   \<and> map_sum id attr_R (kaplan_meier stable_argsort [5, 6, 7, 9] None None)
     = Inr [Fin (3 / 4), Fin (1 / 2), Fin (1 / 4), Fin 0]"
  by (simp add: kaplan_meier_def get_r_c_d_def population_def np_unique_def np_unique_counts_def
        risk_set_def np_cumsum_def km_ratio_def int64_to_float_def fl_cumprod_def Let_def)

section \<open>Adjusted ranks\<close>

text \<open>
  Claim C4 says that \<open>rank_adjust\<close> gives the plain ranks \<open>1, 2, ..., n\<close> on fully uncensored
  data. The loop counts \<open>i\<close> from 0 where its increment \<open>(n + 1 - PMON)/(n - i + 2)\<close> is the
  mean-order-number formula for \<open>i\<close> counted from 1, so on the two uncensored times
  \<open>[5, 6]\<close> it returns \<open>[0.75, 1.5]\<close> and not \<open>[1, 2]\<close>.
\<close>

theorem C4_rank_adjust_uncensored_pair:
  "rank_adjust stable_argsort [5, 6] (Some [0, 0]) = Inr [Fin (3 / 4), Fin (3 / 2)]"
  by (simp add: rank_adjust_def stable_argsort_def take_idx_def upt_rec Let_def)

text \<open>
  Claim C10: calling \<open>rank_adjust\<close> with the censoring argument omitted (\<open>None\<close>) always
  raises TypeError, whatever the times are, because \<open>censored[idx]\<close> is evaluated before
  the test for \<open>None\<close>.
\<close>

theorem C10_rank_adjust_without_censoring_raises:
  "rank_adjust argsort t None = Inl TypeError"
  by (simp add: rank_adjust_def Let_def)

section \<open>Facts about the array primitives\<close>

lemma distinct_remdups_adj_sorted:
  fixes xs :: "'a::linorder list"
  shows "sorted xs \<Longrightarrow> distinct (remdups_adj xs)"
  by (induction xs rule: remdups_adj.induct) auto

lemma np_unique_distinct: "distinct (np_unique xs)"
  by (simp add: np_unique_def distinct_remdups_adj_sorted)

lemma np_unique_set: "set (np_unique xs) = set xs"
  by (simp add: np_unique_def)

lemma np_sum_sum_list: "np_sum xs = sum_list xs"
proof -
  have "foldl (+) a xs = a + sum_list xs" for a :: int64
    by (induction xs arbitrary: a) (simp_all add: add.assoc)
  then show ?thesis by (simp add: np_sum_def)
qed

text \<open>Reading an int64 value back: exact when the number is in range.\<close>

lemma sint_of_int64:
  "- (2 ^ 63) \<le> k \<Longrightarrow> k < 2 ^ 63 \<Longrightarrow> sint (of_int k :: int64) = k"
  by (simp add: sint_sbintrunc' signed_take_bit_int_eq_self)


lemma sint64_bounds: "- (2 ^ 63) \<le> sint (w :: int64)" "sint (w :: int64) < 2 ^ 63"
  using sint_ge[of w] sint_lt[of w] by simp_all

lemma sum_list_of_sint: "sum_list ws = (of_int (sum_list (map sint ws)) :: int64)"
  by (induction ws) simp_all

lemma sint_sum_list:
  assumes "- (2 ^ 63) \<le> sum_list (map sint ws)" and "sum_list (map sint ws) < 2 ^ 63"
  shows "sint (sum_list ws :: int64) = sum_list (map sint ws)"
  by (subst sum_list_of_sint) (rule sint_of_int64[OF assms])

lemma sint_of_nat64: "n < 2 ^ 63 \<Longrightarrow> sint (of_nat n :: int64) = int n"
proof -
  assume "n < 2 ^ 63"
  then have "int n < 2 ^ 63" by (metis of_nat_less_numeral_power_cancel_iff)
  then have "sint (of_int (int n) :: int64) = int n"
    by (intro sint_of_int64) simp_all
  then show ?thesis by simp
qed

lemma np_unique_counts_sum:
  "sum_list (map (\<lambda>v. int (count_list xs v)) (np_unique xs)) = int (length xs)"
proof -
  have "sum_list (map (count_list xs) (np_unique xs)) = sum (count_list xs) (set (np_unique xs))"
    by (rule sum_list_distinct_conv_sum_set) (rule np_unique_distinct)
  also have "\<dots> = length xs"
    by (simp add: np_unique_set sum_count_set)
  finally have "int (sum_list (map (count_list xs) (np_unique xs))) = int (length xs)" by simp
  moreover have "sum_list (map (\<lambda>v. int (f v)) ys) = int (sum_list (map f ys))"
    for f :: "'a \<Rightarrow> nat" and ys
    by (induction ys) simp_all
  ultimately show ?thesis by simp
qed

lemma length_cumsum_from: "length (cumsum_from acc xs) = length xs"
  by (induction xs arbitrary: acc) simp_all

lemma cumsum_from_nth:
  "i < length xs \<Longrightarrow> cumsum_from acc xs ! i = acc + sum_list (take (Suc i) xs)"
proof (induction xs arbitrary: acc i)
  case Nil
  then show ?case by simp
next
  case (Cons v vs)
  then show ?case by (cases i) (simp_all add: add.assoc)
qed

lemma length_risk_set: "length c = length d \<Longrightarrow> length (risk_set N d c) = length d"
  by (cases d) (simp_all add: risk_set_def np_cumsum_def length_cumsum_from del: cumsum_from.simps)

lemma risk_set_nth:
  assumes "length c = length d" and "i < length d"
  shows "risk_set N d c ! i = N - sum_list (take i d) - sum_list (take i c)"
proof (cases i)
  case 0
  with assms show ?thesis by (cases d) (simp_all add: risk_set_def)
next
  case (Suc k)
  obtain v vs where d: "d = v # vs" using assms(2) by (cases d) auto
  have k: "k < length (butlast (np_cumsum d))" "k < length (butlast (np_cumsum c))"
    using assms Suc by (simp_all add: np_cumsum_def length_cumsum_from)
  have "risk_set N d c ! i = N - butlast (np_cumsum d) ! k - butlast (np_cumsum c) ! k"
    using k Suc by (simp add: risk_set_def d)
  also have "butlast (np_cumsum d) ! k = sum_list (take (Suc k) d)"
    using k(1) assms Suc by (simp add: nth_butlast np_cumsum_def cumsum_from_nth length_cumsum_from)
  also have "butlast (np_cumsum c) ! k = sum_list (take (Suc k) c)"
    using k(2) assms Suc by (simp add: nth_butlast np_cumsum_def cumsum_from_nth length_cumsum_from)
  finally show ?thesis using Suc by simp
qed

lemma sum_list_take_le:
  fixes xs :: "int list"
  assumes "\<forall>v\<in>set xs. 0 \<le> v"
  shows "sum_list (take i xs) \<le> sum_list xs"
proof -
  have "sum_list xs = sum_list (take i xs) + sum_list (drop i xs)"
    by (metis append_take_drop_id sum_list_append)
  moreover have "0 \<le> sum_list (drop i xs)"
    using assms by (intro sum_list_nonneg) (auto dest: in_set_dropD)
  ultimately show ?thesis by simp
qed

lemma sum_list_take_nonneg:
  fixes xs :: "int list"
  assumes "\<forall>v\<in>set xs. 0 \<le> v"
  shows "0 \<le> sum_list (take i xs)"
  using assms by (intro sum_list_nonneg) (auto dest: in_set_takeD)

text \<open>The value of a row of \<open>r\<close> when nothing wraps around.\<close>

lemma sint_risk_set_nth:
  assumes len: "length c = length d" and i: "i < length d"
    and d0: "\<forall>v\<in>set d. 0 \<le> sint v" and c0: "\<forall>v\<in>set c. 0 \<le> sint v"
    and tot: "sum_list (map sint d) + sum_list (map sint c) \<le> sint N"
  shows "sint (risk_set N d c ! i)
         = sint N - sum_list (take i (map sint d)) - sum_list (take i (map sint c))"
proof -
  let ?D = "map sint d" and ?C = "map sint c"
  let ?k = "sint N - sum_list (take i ?D) - sum_list (take i ?C)"
  have D0: "\<forall>v\<in>set ?D. 0 \<le> v" and C0: "\<forall>v\<in>set ?C. 0 \<le> v" using d0 c0 by auto
  have "risk_set N d c ! i = N - sum_list (take i d) - sum_list (take i c)"
    using len i by (rule risk_set_nth)
  also have "\<dots> = of_int ?k"
    by (simp add: sum_list_of_sint[of "take i d"] sum_list_of_sint[of "take i c"] take_map)
  finally have eq: "risk_set N d c ! i = of_int ?k" .
  have up: "?k \<le> sint N"
    using sum_list_take_nonneg[OF D0, of i] sum_list_take_nonneg[OF C0, of i] by simp
  have lo: "0 \<le> ?k"
    using sum_list_take_le[OF D0, of i] sum_list_take_le[OF C0, of i] tot by simp
  have "sint (of_int ?k :: int64) = ?k"
    using lo up sint64_bounds(2)[of N] by (intro sint_of_int64) simp_all
  then show ?thesis by (simp only: eq)
qed

lemma risk_set_invariant:
  assumes len: "length c = length d"
    and d0: "\<forall>v\<in>set d. 0 \<le> sint v" and c0: "\<forall>v\<in>set c. 0 \<le> sint v"
    and tot: "sum_list (map sint d) + sum_list (map sint c) \<le> sint N"
  shows "(\<forall>i. Suc i < length (risk_set N d c) \<longrightarrow>
            sint (risk_set N d c ! Suc i) \<le> sint (risk_set N d c ! i))
       \<and> (\<forall>i < length (risk_set N d c). sint (d ! i) + sint (c ! i) \<le> sint (risk_set N d c ! i))"
proof -
  let ?D = "map sint d" and ?C = "map sint c"
  have D0: "\<forall>v\<in>set ?D. 0 \<le> v" and C0: "\<forall>v\<in>set ?C. 0 \<le> v" using d0 c0 by auto
  have step: "sum_list (take (Suc i) xs) = sum_list (take i xs) + xs ! i" if "i < length xs"
    for xs :: "int list" and i
    using that by (simp add: take_Suc_conv_app_nth)
  note row = sint_risk_set_nth[OF len _ d0 c0 tot]
  show ?thesis
  proof (intro conjI allI impI)
    fix i assume "Suc i < length (risk_set N d c)"
    then have i: "Suc i < length d" by (simp add: length_risk_set len)
    then have i': "i < length d" by simp
    have "0 \<le> ?D ! i" "0 \<le> ?C ! i" using i' len d0 c0 by simp_all
    moreover have "sum_list (take (Suc i) ?D) = sum_list (take i ?D) + ?D ! i"
      "sum_list (take (Suc i) ?C) = sum_list (take i ?C) + ?C ! i"
      using i' len by (simp_all add: step)
    ultimately show "sint (risk_set N d c ! Suc i) \<le> sint (risk_set N d c ! i)"
      unfolding row[OF i] row[OF i'] by linarith
  next
    fix i assume "i < length (risk_set N d c)"
    then have i: "i < length d" by (simp add: length_risk_set len)
    have "sum_list (take (Suc i) ?D) \<le> sum_list ?D" "sum_list (take (Suc i) ?C) \<le> sum_list ?C"
      using D0 C0 by (simp_all only: sum_list_take_le)
    moreover have "sum_list (take (Suc i) ?D) = sum_list (take i ?D) + ?D ! i"
      "sum_list (take (Suc i) ?C) = sum_list (take i ?C) + ?C ! i"
      using i len by (simp_all add: step)
    moreover have "?D ! i = sint (d ! i)" "?C ! i = sint (c ! i)" using i len by simp_all
    ultimately show "sint (d ! i) + sint (c ! i) \<le> sint (risk_set N d c ! i)"
      unfolding row[OF i] using tot by linarith
  qed
qed

lemma add_at_Nil: "add_at [] v a d = []"
  by (simp add: add_at_def)

lemma add_at_Cons:
  "add_at (xv # xs) v a (dv # ds) = (if xv = v then dv + a else dv) # add_at xs v a ds"
  by (simp add: add_at_def)

lemma length_add_at: "length d = length x \<Longrightarrow> length (add_at x v a d) = length x"
  by (simp add: add_at_def)

lemma add_at_absent: "v \<notin> set x \<Longrightarrow> length d = length x \<Longrightarrow> add_at x v a d = d"
proof (induction x arbitrary: d)
  case Nil
  then show ?case by (simp add: add_at_Nil)
next
  case (Cons xv xs)
  from Cons.prems(2) obtain dv ds where d: "d = dv # ds" by (cases d) simp_all
  have "add_at xs v a ds = ds" using Cons.prems d by (intro Cons.IH) simp_all
  then show ?case using Cons.prems(1) unfolding d add_at_Cons by simp
qed

text \<open>
  One addition into a column whose values are not negative and whose sum, with the amount
  added, stays below \<open>2^63\<close>: nothing wraps.
\<close>

lemma add_at_exact:
  assumes "distinct x" and "length d = length x" and "v \<in> set x"
    and "\<forall>w\<in>set d. 0 \<le> sint w" and "0 \<le> sint a"
    and "sum_list (map sint d) + sint a < 2 ^ 63"
  shows "sum_list (map sint (add_at x v a d)) = sum_list (map sint d) + sint a
       \<and> (\<forall>w\<in>set (add_at x v a d). 0 \<le> sint w)"
  using assms
proof (induction x arbitrary: d)
  case Nil
  then show ?case by simp
next
  case (Cons xv xs)
  from Cons.prems(2) obtain dv ds where d: "d = dv # ds" by (cases d) simp_all
  have dv0: "0 \<le> sint dv" and ds0: "\<forall>w\<in>set ds. 0 \<le> sint w" using Cons.prems(4) d by simp_all
  have sds0: "0 \<le> sum_list (map sint ds)" using ds0 by (intro sum_list_nonneg) auto
  have notin: "xv \<notin> set xs" and dist: "distinct xs" using Cons.prems(1) by simp_all
  have lens: "length ds = length xs" using Cons.prems(2) d by simp
  have bound: "sint dv + sum_list (map sint ds) + sint a < 2 ^ 63" using Cons.prems(6) d by simp
  show ?case
  proof (cases "xv = v")
    case True
    then have "v \<notin> set xs" using notin by simp
    then have rest: "add_at xs v a ds = ds" using lens by (rule add_at_absent)
    have "sint dv + sint a < 2 ^ 63" using bound sds0 by linarith
    moreover have "- (2 ^ 63) \<le> sint dv + sint a"
    proof -
      have "(0::int) \<le> 2 ^ 63" by simp
      then show ?thesis using dv0 Cons.prems(5) by linarith
    qed
    ultimately have "sint (dv + a) = sint dv + sint a"
      by (simp add: sint_word_add signed_take_bit_int_eq_self)
    then show ?thesis
      unfolding d add_at_Cons using True rest dv0 ds0 Cons.prems(5) by simp
  next
    case False
    then have "v \<in> set xs" using Cons.prems(3) by auto
    moreover have "sum_list (map sint ds) + sint a < 2 ^ 63" using bound dv0 by linarith
    ultimately have IH: "sum_list (map sint (add_at xs v a ds)) = sum_list (map sint ds) + sint a
       \<and> (\<forall>w\<in>set (add_at xs v a ds). 0 \<le> sint w)"
      using dist lens ds0 Cons.prems(5) by (intro Cons.IH) simp_all
    then show ?thesis
      unfolding d add_at_Cons using False dv0 by simp
  qed
qed

lemma argsort_ok_distinct: "argsort_ok argsort \<Longrightarrow> distinct (argsort xs)"
  by (metis argsort_ok_def distinct_upt mset_eq_imp_distinct_iff)

lemma argsort_ok_set: "argsort_ok argsort \<Longrightarrow> set (argsort xs) = {..<length xs}"
  by (metis argsort_ok_def atLeast_upt mset_eq_setD)

lemma argsort_ok_length: "argsort_ok argsort \<Longrightarrow> length (argsort xs) = length xs"
  by (metis argsort_ok_def length_upt mset_eq_length minus_nat.diff_0)

lemma stable_argsort_ok: "argsort_ok stable_argsort"
  by (simp add: argsort_ok_def stable_argsort_def)

lemma take_idx_Inr: "take_idx a idx = Inr b \<Longrightarrow> b = map ((!) a) idx \<and> (\<forall>i\<in>set idx. i < length a)"
  by (auto simp: take_idx_def list_all_iff split: if_splits)

lemma take_idx_sum_le:
  fixes a :: "int list"
  assumes "take_idx a idx = Inr b" and "distinct idx" and "\<forall>v\<in>set a. 0 \<le> v"
  shows "sum_list b \<le> sum_list a"
proof -
  have b: "b = map ((!) a) idx" and sub: "set idx \<subseteq> {..<length a}"
    using take_idx_Inr[OF assms(1)] by auto
  have "sum_list b = sum ((!) a) (set idx)"
    unfolding b using assms(2) by (rule sum_list_distinct_conv_sum_set)
  also have "\<dots> \<le> sum ((!) a) {..<length a}"
    using sub assms(3) by (intro sum_mono2) auto
  also have "\<dots> = sum_list a"
    by (simp add: sum_list_sum_nth atLeast0LessThan)
  finally show ?thesis .
qed

lemma take_idx_sint_sum_le:
  fixes a :: "int64 list"
  assumes tk: "take_idx a idx = Inr b" and "distinct idx" and nn: "\<forall>v\<in>set a. 0 \<le> sint v"
  shows "sum_list (map sint b) \<le> sum_list (map sint a)"
proof -
  have b: "b = map ((!) a) idx" and rng: "\<forall>i\<in>set idx. i < length a"
    using take_idx_Inr[OF tk] by simp_all
  have "take_idx (map sint a) idx = Inr (map sint b)"
    using rng by (simp add: take_idx_def list_all_iff b)
  moreover have "\<forall>v\<in>set (map sint a). 0 \<le> v" using nn by auto
  ultimately show ?thesis using assms(2) by (intro take_idx_sum_le) simp_all
qed

lemma take_idx_argsort:
  assumes "argsort_ok argsort"
  shows "take_idx a (argsort x)
         = (if length x \<le> length a then Inr (map ((!) a) (argsort x)) else Inl IndexError)"
proof -
  have "list_all (\<lambda>i. i < length a) (argsort x) \<longleftrightarrow> (\<forall>i<length x. i < length a)"
    by (auto simp: list_all_iff argsort_ok_set[OF assms])
  also have "\<dots> \<longleftrightarrow> length x \<le> length a"
    by (metis not_le order_less_le_trans order_less_irrefl)
  finally show ?thesis by (simp add: take_idx_def)
qed

lemma accumulate_loop_Nil: "accumulate_loop x [] dc = dc"
  by (simp add: accumulate_loop_def)

lemma accumulate_loop_Cons:
  "accumulate_loop x ((ti, dinc, cinc) # steps) (d, c)
     = accumulate_loop x steps (add_at x ti dinc d, add_at x ti cinc c)"
  by (simp add: accumulate_loop_def)


text \<open>
  The loop as a whole, when the amounts are not negative and their total stays below
  \<open>2^63\<close>: the columns stay non-negative and \<open>d\<close> and \<open>c\<close> together gain the total.
\<close>

lemma accumulate_loop_invariant:
  assumes dist: "distinct x"
    and "length d0 = length x" and "length c0 = length x"
    and "\<forall>w\<in>set d0. 0 \<le> sint w" and "\<forall>w\<in>set c0. 0 \<le> sint w"
    and "\<forall>s\<in>set steps. fst s \<in> set x \<and> 0 \<le> sint (fst (snd s)) \<and> 0 \<le> sint (snd (snd s))"
    and "sum_list (map sint d0) + sum_list (map sint c0)
           + sum_list (map (\<lambda>s. sint (fst (snd s)) + sint (snd (snd s))) steps) < 2 ^ 63"
    and "accumulate_loop x steps (d0, c0) = (d, c)"
  shows "length d = length x \<and> length c = length x
       \<and> (\<forall>w\<in>set d. 0 \<le> sint w) \<and> (\<forall>w\<in>set c. 0 \<le> sint w)
       \<and> sum_list (map sint d) + sum_list (map sint c)
           = sum_list (map sint d0) + sum_list (map sint c0)
             + sum_list (map (\<lambda>s. sint (fst (snd s)) + sint (snd (snd s))) steps)"
  using assms(2-8)
proof (induction steps arbitrary: d0 c0)
  case Nil
  then show ?case by (simp add: accumulate_loop_Nil)
next
  case (Cons s steps)
  obtain ti dinc cinc where s: "s = (ti, dinc, cinc)" by (cases s) auto
  let ?d1 = "add_at x ti dinc d0" and ?c1 = "add_at x ti cinc c0"
  let ?rest = "sum_list (map (\<lambda>s. sint (fst (snd s)) + sint (snd (snd s))) steps)"
  have ok: "ti \<in> set x" "0 \<le> sint dinc" "0 \<le> sint cinc" using Cons.prems(5) s by simp_all
  have rest: "\<forall>s\<in>set steps. fst s \<in> set x \<and> 0 \<le> sint (fst (snd s)) \<and> 0 \<le> sint (snd (snd s))"
    using Cons.prems(5) by simp
  have rest0: "0 \<le> ?rest" using rest by (intro sum_list_nonneg) auto
  have sd0: "0 \<le> sum_list (map sint d0)" using Cons.prems(3) by (intro sum_list_nonneg) auto
  have sc0: "0 \<le> sum_list (map sint c0)" using Cons.prems(4) by (intro sum_list_nonneg) auto
  have bound: "sum_list (map sint d0) + sum_list (map sint c0) + (sint dinc + sint cinc + ?rest) < 2 ^ 63"
    using Cons.prems(6) by (simp add: s)
  have bd: "sum_list (map sint d0) + sint dinc < 2 ^ 63" using bound sc0 ok(3) rest0 by linarith
  have bc: "sum_list (map sint c0) + sint cinc < 2 ^ 63" using bound sd0 ok(2) rest0 by linarith
  have d1: "sum_list (map sint ?d1) = sum_list (map sint d0) + sint dinc \<and> (\<forall>w\<in>set ?d1. 0 \<le> sint w)"
    by (rule add_at_exact[OF dist Cons.prems(1) ok(1) Cons.prems(3) ok(2) bd])
  have c1: "sum_list (map sint ?c1) = sum_list (map sint c0) + sint cinc \<and> (\<forall>w\<in>set ?c1. 0 \<le> sint w)"
    by (rule add_at_exact[OF dist Cons.prems(2) ok(1) Cons.prems(4) ok(3) bc])
  have run: "accumulate_loop x steps (?d1, ?c1) = (d, c)"
    using Cons.prems(7) unfolding s accumulate_loop_Cons .
  have l1: "length ?d1 = length x" "length ?c1 = length x"
    using Cons.prems(1,2) by (simp_all add: length_add_at)
  have n1: "\<forall>w\<in>set ?d1. 0 \<le> sint w" "\<forall>w\<in>set ?c1. 0 \<le> sint w" using d1 c1 by blast+
  have b1: "sum_list (map sint ?d1) + sum_list (map sint ?c1) + ?rest < 2 ^ 63"
    using d1 c1 bound by linarith
  note IH = Cons.IH[OF l1 n1 rest b1 run]
  have "sum_list (map (\<lambda>s. sint (fst (snd s)) + sint (snd (snd s))) (s # steps))
        = sint dinc + sint cinc + ?rest" by (simp add: s)
  with IH d1 c1 show ?case by (simp only: ) linarith
qed

section \<open>Invariants of the risk-set table\<close>

lemma sum_list_zeros: "sum_list (map (\<lambda>_. 0::int) xs) = 0"
  by (induction xs) simp_all

lemma sum_list_sint_zeros: "sum_list (map sint (map (\<lambda>_. 0::int64) xs)) = 0"
  by (induction xs) simp_all

lemma sum_list_const_one: "sum_list (map (\<lambda>i. 1::int) xs) = int (length xs)"
  by (induction xs) simp_all

lemma builder_plain:
  assumes run: "get_r_c_d argsort x None None = Inr (x', r, c, d)"
    and small: "int (length x) < 2 ^ 63"
  shows "\<exists>N rs ds. r = Int64Array rs \<and> d = Int64Array ds \<and> table_sound N rs c ds"
proof -
  let ?N = "of_nat (length x) :: int64"
  let ?d = "np_unique_counts x :: int64 list"
  have d: "d = Int64Array ?d" and c: "c = map (\<lambda>_. 0) (np_unique x)"
    and r: "r = Int64Array (risk_set ?N ?d c)"
    using run by (auto simp: get_r_c_d_def Let_def)
  have lx: "length x < 2 ^ 63" using small by (metis of_nat_less_numeral_power_cancel_iff)
  have N: "sint ?N = int (length x)" using lx by (rule sint_of_nat64)
  have el: "sint (of_nat (count_list x v) :: int64) = int (count_list x v)" for v
  proof -
    have "count_list x v \<le> length x" by (rule count_le_length)
    then have "count_list x v < 2 ^ 63" using lx by simp
    then show ?thesis by (rule sint_of_nat64)
  qed
  have md: "map sint ?d = map (\<lambda>v. int (count_list x v)) (np_unique x)"
    by (simp add: np_unique_counts_def el)
  have "sum_list (map sint ?d) = int (length x)" unfolding md by (rule np_unique_counts_sum)
  moreover have "sum_list (map sint c) = 0" unfolding c by (rule sum_list_sint_zeros)
  moreover have "\<forall>v\<in>set ?d. 0 \<le> sint v" by (auto simp: np_unique_counts_def el)
  moreover have "\<forall>v\<in>set c. 0 \<le> sint v" "length c = length ?d"
    unfolding c np_unique_counts_def by simp_all
  ultimately have "table_sound ?N (risk_set ?N ?d c) c ?d"
    unfolding table_sound_def using N by simp
  with r d show ?thesis by blast
qed

lemma builder_counts:
  assumes ok: "argsort_ok argsort"
    and run: "get_r_c_d argsort x None (Some (Int64Array cnt)) = Inr (x', r, c, d)"
    and nn: "\<forall>v\<in>set cnt. 0 \<le> sint v"
    and small: "sum_list (map sint cnt) < 2 ^ 63"
  shows "\<exists>N rs ds. r = Int64Array rs \<and> d = Int64Array ds \<and> table_sound N rs c ds"
proof -
  let ?idx = "argsort x"
  let ?N = "np_sum cnt"
  obtain ds where tk: "take_idx cnt ?idx = Inr ds"
    using run by (auto simp: get_r_c_d_def Let_def split: sum.splits)
  have d: "d = Int64Array ds" and c: "c = map (\<lambda>_. 0) (map ((!) x) ?idx)"
    and r: "r = Int64Array (risk_set ?N ds c)"
    using run tk by (auto simp: get_r_c_d_def Let_def)
  have dsm: "ds = map ((!) cnt) ?idx" and rng: "\<forall>i\<in>set ?idx. i < length cnt"
    using take_idx_Inr[OF tk] by simp_all
  have tot0: "0 \<le> sum_list (map sint cnt)" using nn by (intro sum_list_nonneg) auto
  have N: "sint ?N = sum_list (map sint cnt)"
    unfolding np_sum_sum_list using tot0 small by (intro sint_sum_list) simp_all
  have "sum_list (map sint c) = 0" unfolding c by (rule sum_list_sint_zeros)
  moreover have "sum_list (map sint ds) \<le> sum_list (map sint cnt)"
    using tk argsort_ok_distinct[OF ok] nn by (rule take_idx_sint_sum_le)
  moreover have "\<forall>v\<in>set ds. 0 \<le> sint v" using nn rng unfolding dsm by auto
  moreover have "\<forall>v\<in>set c. 0 \<le> sint v" "length c = length ds"
    unfolding c dsm by simp_all
  ultimately have "table_sound ?N (risk_set ?N ds c) c ds"
    unfolding table_sound_def using N by simp
  with r d show ?thesis by blast
qed

lemma code_split:
  fixes ce :: int64
  assumes "ce = 0 \<or> ce = 1"
  shows "0 \<le> sint (1 - ce)" "0 \<le> sint ce" "sint (1 - ce) + sint ce = 1"
  using assms by auto

lemma code_weight_split:
  fixes ce cn :: int64
  assumes "ce = 0 \<or> ce = 1" and "0 \<le> sint cn"
  shows "0 \<le> sint ((1 - ce) * cn)" "0 \<le> sint (ce * cn)"
    "sint ((1 - ce) * cn) + sint (ce * cn) = sint cn"
  using assms by auto

lemma builder_censored:
  assumes run: "get_r_c_d argsort x (Some (Int64Array cens)) None = Inr (x', r, c, d)"
    and codes: "\<forall>v\<in>set cens. v = 0 \<or> v = 1"
    and small: "int (length x) < 2 ^ 63"
  shows "\<exists>N rs ds. r = Int64Array rs \<and> d = Int64Array ds \<and> table_sound N rs c ds"
proof -
  let ?N = "of_nat (length x) :: int64"
  let ?u = "np_unique x"
  let ?z = "map (\<lambda>_. 0::int64) ?u"
  let ?steps = "map (\<lambda>i. (x ! i, 1 - cens ! i, cens ! i)) [0..<length x]"
  have len: "length x \<le> length cens"
    using run by (auto simp: get_r_c_d_def Let_def split: if_splits)
  obtain ds cs where acc: "accumulate_loop ?u ?steps (?z, ?z) = (ds, cs)"
    by (cases "accumulate_loop ?u ?steps (?z, ?z)") auto
  have d: "d = Int64Array ds" and c: "c = cs" and r: "r = Int64Array (risk_set ?N ds cs)"
    using run len acc by (auto simp: get_r_c_d_def Let_def)
  have lx: "length x < 2 ^ 63" using small by (metis of_nat_less_numeral_power_cancel_iff)
  have N: "sint ?N = int (length x)" using lx by (rule sint_of_nat64)
  have code: "cens ! i = 0 \<or> cens ! i = 1" if "i < length x" for i
    using that len codes by simp
  have steps_ok: "\<forall>s\<in>set ?steps. fst s \<in> set ?u \<and> 0 \<le> sint (fst (snd s)) \<and> 0 \<le> sint (snd (snd s))"
  proof
    fix s assume "s \<in> set ?steps"
    then obtain i where i: "i < length x" and s: "s = (x ! i, 1 - cens ! i, cens ! i)" by auto
    show "fst s \<in> set ?u \<and> 0 \<le> sint (fst (snd s)) \<and> 0 \<le> sint (snd (snd s))"
      using code_split(1,2)[OF code[OF i]] i by (simp add: s np_unique_set)
  qed
  have z0: "\<forall>w\<in>set ?z. 0 \<le> sint w" by simp
  have zs: "sum_list (map sint ?z) = 0" by (rule sum_list_sint_zeros)
  have "map (\<lambda>s. sint (fst (snd s)) + sint (snd (snd s))) ?steps = map (\<lambda>i. 1::int) [0..<length x]"
    using code_split(3)[OF code] by simp
  then have total: "sum_list (map (\<lambda>s. sint (fst (snd s)) + sint (snd (snd s))) ?steps) = int (length x)"
    by (simp only: sum_list_const_one) simp
  have bound: "sum_list (map sint ?z) + sum_list (map sint ?z)
           + sum_list (map (\<lambda>s. sint (fst (snd s)) + sint (snd (snd s))) ?steps) < 2 ^ 63"
    unfolding zs total using small by simp
  have inv: "length ds = length ?u \<and> length cs = length ?u
       \<and> (\<forall>w\<in>set ds. 0 \<le> sint w) \<and> (\<forall>w\<in>set cs. 0 \<le> sint w)
       \<and> sum_list (map sint ds) + sum_list (map sint cs)
           = sum_list (map sint ?z) + sum_list (map sint ?z)
             + sum_list (map (\<lambda>s. sint (fst (snd s)) + sint (snd (snd s))) ?steps)"
    by (rule accumulate_loop_invariant[OF np_unique_distinct _ _ z0 z0 steps_ok bound acc]) simp_all
  then have "sum_list (map sint ds) + sum_list (map sint cs) = int (length x)"
    unfolding zs total by simp
  with inv have "table_sound ?N (risk_set ?N ds cs) cs ds"
    unfolding table_sound_def using N by simp
  with r d c show ?thesis by blast
qed

lemma nd_take_idx_int64:
  "nd_take_idx (Int64Array ws) idx = Inr a \<Longrightarrow> \<exists>b. a = Int64Array b \<and> take_idx ws idx = Inr b"
  by (cases "take_idx ws idx") (auto simp: nd_take_idx_def)

lemma builder_both:
  assumes ok: "argsort_ok argsort"
    and run: "get_r_c_d argsort x (Some (Int64Array cens)) (Some (Int64Array cnt)) = Inr (x', r, c, d)"
    and nn: "\<forall>v\<in>set cnt. 0 \<le> sint v"
    and codes: "\<forall>v\<in>set cens. v = 0 \<or> v = 1"
    and small: "sum_list (map sint cnt) < 2 ^ 63"
  shows "\<exists>N rs ds. r = Int64Array rs \<and> d = Int64Array ds \<and> table_sound N rs c ds"
proof -
  let ?idx = "argsort x"
  let ?t = "map ((!) x) ?idx"
  let ?u = "np_unique ?t"
  let ?z = "map (\<lambda>_. 0::int64) ?u"
  let ?N = "np_sum cnt"
  obtain a1 where n1: "nd_take_idx (Int64Array cnt) ?idx = Inr a1"
    using run by (cases "nd_take_idx (Int64Array cnt) ?idx") (auto simp: get_r_c_d_def Let_def)
  obtain a2 where n2: "nd_take_idx (Int64Array cens) ?idx = Inr a2"
    using run n1 by (cases "nd_take_idx (Int64Array cens) ?idx") (auto simp: get_r_c_d_def Let_def)
  obtain cn where a1: "a1 = Int64Array cn" and tk1: "take_idx cnt ?idx = Inr cn"
    using nd_take_idx_int64[OF n1] by blast
  obtain ce where a2: "a2 = Int64Array ce" and tk2: "take_idx cens ?idx = Inr ce"
    using nd_take_idx_int64[OF n2] by blast
  let ?steps = "map (\<lambda>i. (?t ! i, (1 - ce ! i) * cn ! i, ce ! i * cn ! i)) [0..<length ?t]"
  obtain ds cs where acc: "accumulate_loop ?u ?steps (?z, ?z) = (ds, cs)"
    by (cases "accumulate_loop ?u ?steps (?z, ?z)") auto
  have d: "d = Int64Array ds" and c: "c = cs" and r: "r = Int64Array (risk_set ?N ds cs)"
    using run n1 n2 acc unfolding a1 a2 by (auto simp: get_r_c_d_def Let_def)
  have cnm: "cn = map ((!) cnt) ?idx" and rng1: "\<forall>i\<in>set ?idx. i < length cnt"
    using take_idx_Inr[OF tk1] by simp_all
  have cem: "ce = map ((!) cens) ?idx" and rng2: "\<forall>i\<in>set ?idx. i < length cens"
    using take_idx_Inr[OF tk2] by simp_all
  have el: "0 \<le> sint (cn ! i) \<and> (ce ! i = 0 \<or> ce ! i = 1)" if "i < length ?idx" for i
    using that rng1 rng2 nn codes by (simp add: cnm cem)
  have steps_ok: "\<forall>s\<in>set ?steps. fst s \<in> set ?u \<and> 0 \<le> sint (fst (snd s)) \<and> 0 \<le> sint (snd (snd s))"
  proof
    fix s assume "s \<in> set ?steps"
    then obtain i where i: "i < length ?idx"
      and s: "s = (?t ! i, (1 - ce ! i) * cn ! i, ce ! i * cn ! i)" by auto
    have "?t ! i \<in> set ?t" using i by (intro nth_mem) simp
    moreover have "0 \<le> sint ((1 - ce ! i) * cn ! i)" "0 \<le> sint (ce ! i * cn ! i)"
      using el[OF i] by (simp_all add: code_weight_split)
    ultimately show "fst s \<in> set ?u \<and> 0 \<le> sint (fst (snd s)) \<and> 0 \<le> sint (snd (snd s))"
      unfolding s np_unique_set by simp
  qed
  have z0: "\<forall>w\<in>set ?z. 0 \<le> sint w" by simp
  have zs: "sum_list (map sint ?z) = 0" by (rule sum_list_sint_zeros)
  have "map (\<lambda>s. sint (fst (snd s)) + sint (snd (snd s))) ?steps
        = map (\<lambda>i. sint (cn ! i)) [0..<length cn]"
    using el by (simp add: cnm code_weight_split)
  also have "\<dots> = map sint (map (\<lambda>i. cn ! i) [0..<length cn])" by simp
  also have "\<dots> = map sint cn" by (simp only: map_nth)
  finally have total: "sum_list (map (\<lambda>s. sint (fst (snd s)) + sint (snd (snd s))) ?steps)
        = sum_list (map sint cn)" by simp
  have le: "sum_list (map sint cn) \<le> sum_list (map sint cnt)"
    using tk1 argsort_ok_distinct[OF ok] nn by (rule take_idx_sint_sum_le)
  have bound: "sum_list (map sint ?z) + sum_list (map sint ?z)
           + sum_list (map (\<lambda>s. sint (fst (snd s)) + sint (snd (snd s))) ?steps) < 2 ^ 63"
    unfolding zs total using le small by simp
  have inv: "length ds = length ?u \<and> length cs = length ?u
       \<and> (\<forall>w\<in>set ds. 0 \<le> sint w) \<and> (\<forall>w\<in>set cs. 0 \<le> sint w)
       \<and> sum_list (map sint ds) + sum_list (map sint cs)
           = sum_list (map sint ?z) + sum_list (map sint ?z)
             + sum_list (map (\<lambda>s. sint (fst (snd s)) + sint (snd (snd s))) ?steps)"
    by (rule accumulate_loop_invariant[OF np_unique_distinct _ _ z0 z0 steps_ok bound acc]) simp_all
  have tot0: "0 \<le> sum_list (map sint cnt)" using nn by (intro sum_list_nonneg) auto
  have N: "sint ?N = sum_list (map sint cnt)"
    unfolding np_sum_sum_list using tot0 small by (intro sint_sum_list) simp_all
  have "sum_list (map sint ds) + sum_list (map sint cs) \<le> sint ?N"
    using inv le unfolding zs total N by simp
  with inv have "table_sound ?N (risk_set ?N ds cs) cs ds"
    unfolding table_sound_def by simp
  with r d c show ?thesis by blast
qed

lemma builder_table_sound:
  assumes ok: "argsort_ok argsort"
    and run: "get_r_c_d argsort x censored counts = Inr (x', r, c, d)"
    and vc: "valid_counts counts" and vs: "valid_censored censored"
    and small: "exact_population x counts < 2 ^ 63"
  shows "\<exists>N rs ds. r = Int64Array rs \<and> d = Int64Array ds \<and> table_sound N rs c ds"
proof (cases censored)
  case None
  note cen = this
  show ?thesis
  proof (cases counts)
    case None
    have "int (length x) < 2 ^ 63" using small by (simp add: None exact_population_def)
    with run show ?thesis unfolding cen None by (rule builder_plain)
  next
    case (Some a)
    then obtain cnt where a: "a = Int64Array cnt"
      using vc by (cases a) (simp_all add: valid_counts_def)
    have "\<forall>v\<in>set cnt. 0 \<le> sint v"
      using vc by (simp add: Some a valid_counts_def list_all_iff)
    moreover have "sum_list (map sint cnt) < 2 ^ 63"
      using small by (simp add: Some a exact_population_def)
    ultimately show ?thesis
      using ok run unfolding cen Some a by (intro builder_counts)
  qed
next
  case (Some b)
  then obtain cens where b: "b = Int64Array cens"
    using vs by (cases b) (simp_all add: valid_censored_def)
  note cen = Some
  have codes: "\<forall>v\<in>set cens. v = 0 \<or> v = 1"
    using vs by (simp add: cen b valid_censored_def list_all_iff)
  show ?thesis
  proof (cases counts)
    case None
    have "int (length x) < 2 ^ 63" using small by (simp add: None exact_population_def)
    with run codes show ?thesis unfolding cen b None by (intro builder_censored)
  next
    case (Some a)
    then obtain cnt where a: "a = Int64Array cnt"
      using vc by (cases a) (simp_all add: valid_counts_def)
    have "\<forall>v\<in>set cnt. 0 \<le> sint v"
      using vc by (simp add: Some a valid_counts_def list_all_iff)
    moreover have "sum_list (map sint cnt) < 2 ^ 63"
      using small by (simp add: Some a exact_population_def)
    ultimately show ?thesis
      using ok run codes unfolding cen b Some a by (intro builder_both)
  qed
qed

text \<open>
  Claim C6, amended: for every table the builder returns on valid input (int64 counts that
  are not negative, int64 censoring codes 0 or 1) whose population \<open>N\<close> (the number of times,
  or the sum of the counts) is below \<open>2^63\<close>, the risk sequence \<open>r\<close> is non-increasing and
  \<open>r[i] \<ge> d[i] + c[i]\<close> holds at every index.
\<close>

theorem C6_risk_nonincreasing_and_covering:
  assumes "argsort_ok argsort"
    and "get_r_c_d argsort x censored counts = Inr (x', r, c, d)"
    and "valid_counts counts" and "valid_censored censored"
    and "exact_population x counts < 2 ^ 63"
  shows "\<exists>rs ds. r = Int64Array rs \<and> d = Int64Array ds
       \<and> (\<forall>i. Suc i < length rs \<longrightarrow> sint (rs ! Suc i) \<le> sint (rs ! i))
       \<and> (\<forall>i<length rs. sint (ds ! i) + sint (c ! i) \<le> sint (rs ! i))"
proof -
  obtain N rs ds where r: "r = Int64Array rs" and d: "d = Int64Array ds"
    and ts: "table_sound N rs c ds"
    using builder_table_sound[OF assms] by blast
  have "(\<forall>i. Suc i < length rs \<longrightarrow> sint (rs ! Suc i) \<le> sint (rs ! i))
       \<and> (\<forall>i<length rs. sint (ds ! i) + sint (c ! i) \<le> sint (rs ! i))"
    using ts unfolding table_sound_def using risk_set_invariant[of c ds N] by simp
  with r d show ?thesis by blast
qed

theorem C6_risk_nonincreasing_and_covering_witness:
  "argsort_ok stable_argsort
   \<and> get_r_c_d stable_argsort [3, 1, 2] (Some (Int64Array [0, 1, 1])) (Some (Int64Array [2, 5, 7]))
       = Inr ([1, 2, 3], Int64Array [14, 9, 2], [5, 7, 0], Int64Array [0, 0, 2])
   \<and> valid_counts (Some (Int64Array [2, 5, 7])) \<and> valid_censored (Some (Int64Array [0, 1, 1]))
   \<and> exact_population [3, 1, 2] (Some (Int64Array [2, 5, 7])) < 2 ^ 63
   \<and> sint ([14, 9, 2 :: int64] ! 1) \<le> sint ([14, 9, 2 :: int64] ! 0)
   \<and> sint ([14, 9, 2 :: int64] ! 2) \<le> sint ([14, 9, 2 :: int64] ! 1)
   \<and> sint ([0, 0, 2 :: int64] ! 0) + sint ([5, 7, 0 :: int64] ! 0) \<le> sint ([14, 9, 2 :: int64] ! 0)
   \<and> sint ([0, 0, 2 :: int64] ! 1) + sint ([5, 7, 0 :: int64] ! 1) \<le> sint ([14, 9, 2 :: int64] ! 1)
   \<and> sint ([0, 0, 2 :: int64] ! 2) + sint ([5, 7, 0 :: int64] ! 2) \<le> sint ([14, 9, 2 :: int64] ! 2)"
proof -
  have run: "get_r_c_d stable_argsort [3, 1, 2] (Some (Int64Array [0, 1, 1])) (Some (Int64Array [2, 5, 7]))
       = Inr ([1, 2, 3], Int64Array [14, 9, 2], [5, 7, 0], Int64Array [0, 0, 2])"
    by (simp add: get_r_c_d_def nd_take_idx_def np_sum_def take_idx_def stable_argsort_def
          np_unique_def accumulate_loop_def add_at_def risk_set_def np_cumsum_def upt_rec)
  have vc: "valid_counts (Some (Int64Array [2, 5, 7]))" by (simp add: valid_counts_def)
  have vs: "valid_censored (Some (Int64Array [0, 1, 1]))" by (simp add: valid_censored_def)
  have small: "exact_population [3, 1, 2] (Some (Int64Array [2, 5, 7])) < 2 ^ 63"
    by (simp add: exact_population_def)
  show ?thesis
    using C6_risk_nonincreasing_and_covering[OF stable_argsort_ok run vc vs small]
      stable_argsort_ok run vc vs small
    by simp
qed

text \<open>
  Claim C6, as stated, for every valid input: it fails when the sum of the counts passes
  the int64 range. For the times \<open>[1, 2]\<close> with the counts \<open>[2^62, 2^62]\<close> the sum wraps to
  \<open>N = -2^63\<close> and the builder returns \<open>r = [-2^63, 2^62]\<close>: \<open>r\<close> increases, and
  \<open>r[0] < d[0] + c[0]\<close>.
\<close>

theorem C6_population_overflow_breaks_order:
  "valid_counts (Some (Int64Array [4611686018427387904, 4611686018427387904]))
   \<and> get_r_c_d stable_argsort [1, 2] None
         (Some (Int64Array [4611686018427387904, 4611686018427387904]))
       = Inr ([1, 2], Int64Array [- 9223372036854775808, 4611686018427387904], [0, 0],
              Int64Array [4611686018427387904, 4611686018427387904])
   \<and> sint (- 9223372036854775808 :: int64) < sint (4611686018427387904 :: int64)
   \<and> sint (- 9223372036854775808 :: int64) < sint (4611686018427387904 :: int64) + sint (0 :: int64)"
  by (simp add: valid_counts_def get_r_c_d_def np_sum_def take_idx_def stable_argsort_def
        risk_set_def np_cumsum_def upt_rec)


section \<open>What the builder accepts\<close>

text \<open>
  Float censoring codes over integer times: the first in-place addition raises.
\<close>

lemma builder_float_codes_raise:
  "get_r_c_d stable_argsort [1, 2] (Some (Float64Array [Fin 0, Fin 1])) None = Inl UFuncTypeError"
  by (simp add: get_r_c_d_def float_operand_loop_def)

lemma nd_take_idx_argsort:
  assumes "argsort_ok argsort" and "length x \<le> nd_length a"
  shows "\<exists>b. nd_take_idx a (argsort x) = Inr b"
  using assms(2) by (cases a) (simp_all add: nd_take_idx_def take_idx_argsort[OF assms(1)])

text \<open>
  Claim C7, amended: the builder has no check of the counts or of the population size. For
  every input of int64 arrays whose censoring and count arrays (when given) are at least as
  long as the times it returns a table, also when a count is negative or \<open>N\<close> is zero.
\<close>

theorem C7_builder_returns_on_int64_input:
  assumes ok: "argsort_ok argsort"
    and i1: "int64_input censored" and i2: "int64_input counts"
    and cover: "nd_arrays_cover x censored counts"
  shows "\<exists>tab. get_r_c_d argsort x censored counts = Inr tab"
proof (cases censored)
  case None
  note cen = this
  show ?thesis
  proof (cases counts)
    case None
    then show ?thesis by (simp add: cen get_r_c_d_def Let_def)
  next
    case (Some a)
    then obtain cnt where a: "a = Int64Array cnt"
      using i2 by (cases a) (simp_all add: int64_input_def)
    have "length x \<le> length cnt" using cover by (simp add: nd_arrays_cover_def Some a)
    then show ?thesis
      by (simp add: cen Some a get_r_c_d_def Let_def take_idx_argsort[OF ok])
  qed
next
  case (Some b)
  then obtain cens where b: "b = Int64Array cens"
    using i1 by (cases b) (simp_all add: int64_input_def)
  note cen = Some
  have lc: "length x \<le> length cens" using cover by (simp add: nd_arrays_cover_def cen b)
  show ?thesis
  proof (cases counts)
    case None
    then show ?thesis using lc
      by (simp add: cen b get_r_c_d_def Let_def split_def)
  next
    case (Some a)
    then obtain cnt where a: "a = Int64Array cnt"
      using i2 by (cases a) (simp_all add: int64_input_def)
    have "length x \<le> length cnt" using cover by (simp add: nd_arrays_cover_def Some a)
    then show ?thesis using lc
      by (simp add: cen b Some a get_r_c_d_def nd_take_idx_def Let_def split_def
            take_idx_argsort[OF ok])
  qed
qed

theorem C7_builder_returns_on_int64_input_witness:
  "argsort_ok stable_argsort \<and> int64_input None \<and> int64_input (Some (Int64Array [- 3, 0]))
   \<and> nd_arrays_cover [4, 2] None (Some (Int64Array [- 3, 0]))
   \<and> get_r_c_d stable_argsort [4, 2] None (Some (Int64Array [- 3, 0]))
       = Inr ([2, 4], Int64Array [- 3, - 3], [0, 0], Int64Array [0, - 3])"
proof -
  have a: "nd_arrays_cover [4, 2] None (Some (Int64Array [- 3, 0]))"
    by (simp add: nd_arrays_cover_def)
  have i1: "int64_input None" and i2: "int64_input (Some (Int64Array [- 3, 0]))"
    by (simp_all add: int64_input_def)
  have run: "get_r_c_d stable_argsort [4, 2] None (Some (Int64Array [- 3, 0]))
       = Inr ([2, 4], Int64Array [- 3, - 3], [0, 0], Int64Array [0, - 3])"
    by (simp add: get_r_c_d_def np_sum_def take_idx_def stable_argsort_def
          risk_set_def np_cumsum_def upt_rec)
  show ?thesis
    using C7_builder_returns_on_int64_input[OF stable_argsort_ok i1 i2 a] stable_argsort_ok a i1 i2 run by simp
qed

text \<open>
  Claim C7, as stated: with a negative count, or with \<open>N = 0\<close>, the builder fails with
  InvalidInput and returns no result. It returns a table in both cases: for the single
  time 1 with count \<open>-1\<close>, and for the empty input.
\<close>

theorem C7_negative_count_and_empty_input_accepted:
  "get_r_c_d stable_argsort [1] None (Some (Int64Array [- 1]))
     = Inr ([1], Int64Array [- 1], [0], Int64Array [- 1])
   \<and> get_r_c_d stable_argsort [] None None = Inr ([], Int64Array [], [], Int64Array [])"
  by (simp add: get_r_c_d_def np_unique_def np_unique_counts_def np_sum_def
        take_idx_def stable_argsort_def risk_set_def np_cumsum_def upt_rec)

section \<open>Fleming-Harrington against Nelson-Aalen\<close>















section \<open>The mass returned by the Turnbull pass\<close>










section \<open>Plotting positions and the formula table\<close>

lemma formula_constants_listed:
  "\<forall>(name, A, B)\<in>set spec_formula_table. formula_constants name = Some (A, B)"
  by (simp add: spec_formula_table_def formula_constants_def)





section \<open>Error behaviour of the rank-regression fitters\<close>

lemma take_idx_length: "take_idx a idx = Inr b \<Longrightarrow> length b = length idx"
  by (auto simp: take_idx_def split: if_splits)

lemma rank_adjust_returns:
  assumes "argsort_ok argsort" and "length t \<le> length cens"
  shows "\<exists>ranks. rank_adjust argsort t (Some cens) = Inr ranks"
  using assms(2) by (simp add: rank_adjust_def Let_def take_idx_argsort[OF assms(1)])

lemma lsq_prepare_returns:
  assumes ok: "argsort_ok argsort" and ne: "t \<noteq> []"
    and cover: "arrays_cover t censored None"
    and listed: "plotting \<in> fst ` set spec_formula_table"
  shows "\<exists>prep. lsq_prepare argsort t censored plotting = Inr (Some prep)"
proof -
  define cens where "cens = (case censored of None \<Rightarrow> replicate (length t) 0 | Some c \<Rightarrow> c)"
  define t' where "t' = map ((!) t) (argsort t)"
  have len: "length t \<le> length cens"
    using cover by (cases censored) (simp_all add: cens_def arrays_cover_def)
  then have tk: "take_idx cens (argsort t) = Inr (map ((!) cens) (argsort t))"
    by (simp add: take_idx_argsort[OF ok])
  define cens' where "cens' = map ((!) cens) (argsort t)"
  have "length t' \<le> length cens'" by (simp add: t'_def cens'_def)
  then obtain ranks where ranks: "rank_adjust argsort t' (Some cens') = Inr ranks"
    using rank_adjust_returns[OF ok] by blast
  obtain A B where AB: "formula_constants plotting = Some (A, B)"
    using listed formula_constants_listed by force
  have "\<exists>f. plotting_positions argsort t' (Some cens') plotting = Inr f"
    by (simp add: plotting_positions_def pp_ranks_def ranks AB)
  then obtain f where f: "plotting_positions argsort t' (Some cens') plotting = Inr f" ..
  have "lsq_prepare argsort t censored plotting = Inr (Some (t', cens', f))"
    using ne tk f
    by (simp add: lsq_prepare_def Let_def cens_def[symmetric] t'_def[symmetric] cens'_def[symmetric])
  then show ?thesis ..
qed

text \<open>
  Claim C9, amended: for an empty time array each of the three fitters returns \<open>None\<close>,
  without an error. With the limited-failure-population fit off, a non-empty time array, a
  plotting formula of the table and a censoring array (when given) at least as long as the
  times, \<open>gumbel_lsq\<close> and \<open>normal_lsq\<close> raise a plain \<open>Exception\<close> for every direction
  code other than \<open>'x'\<close> and \<open>'y'\<close>.
\<close>

theorem C9_fitters_empty_sample_and_direction:
  "weibull_lsq L argsort [] censored plotting lfp' rr = Inr None
   \<and> gumbel_lsq L argsort [] censored plotting lfp' rr = Inr None
   \<and> normal_lsq L argsort [] censored plotting lfp' rr = Inr None
   \<and> (argsort_ok argsort \<and> t \<noteq> [] \<and> arrays_cover t censored None
        \<and> plotting \<in> fst ` set spec_formula_table \<and> \<not> lfp' \<and> rr \<noteq> ''x'' \<and> rr \<noteq> ''y''
      \<longrightarrow> gumbel_lsq L argsort t censored plotting lfp' rr = Inl PyException
        \<and> normal_lsq L argsort t censored plotting lfp' rr = Inl PyException)"
proof (intro conjI impI)
  show "weibull_lsq L argsort [] censored plotting lfp' rr = Inr None"
    by (simp add: weibull_lsq_def lsq_prepare_def)
  show "gumbel_lsq L argsort [] censored plotting lfp' rr = Inr None"
    by (simp add: gumbel_lsq_def lsq_prepare_def)
  show "normal_lsq L argsort [] censored plotting lfp' rr = Inr None"
    by (simp add: normal_lsq_def lsq_prepare_def)
next
  assume h: "argsort_ok argsort \<and> t \<noteq> [] \<and> arrays_cover t censored None
        \<and> plotting \<in> fst ` set spec_formula_table \<and> \<not> lfp' \<and> rr \<noteq> ''x'' \<and> rr \<noteq> ''y''"
  then obtain prep where prep: "lsq_prepare argsort t censored plotting = Inr (Some prep)"
    using lsq_prepare_returns[of argsort t censored plotting] by blast
  obtain t' cens f where p: "prep = (t', cens, f)" by (cases prep) auto
  show "gumbel_lsq L argsort t censored plotting lfp' rr = Inl PyException"
    using h by (simp add: gumbel_lsq_def prep p Let_def)
  show "normal_lsq L argsort t censored plotting lfp' rr = Inl PyException"
    using h by (simp add: normal_lsq_def prep p Let_def)
qed

theorem C9_fitters_empty_sample_and_direction_witness:
  "argsort_ok stable_argsort \<and> arrays_cover [5, 6] None None
   \<and> ''Blom'' \<in> fst ` set spec_formula_table
   \<and> gumbel_lsq failing_numlib stable_argsort [5, 6] None ''Blom'' False ''z'' = Inl PyException
   \<and> normal_lsq failing_numlib stable_argsort [5, 6] None ''Blom'' False ''z'' = Inl PyException"
proof -
  have a: "arrays_cover [5, 6] None None" by (simp add: arrays_cover_def)
  have b: "''Blom'' \<in> fst ` set spec_formula_table" by (simp add: spec_formula_table_def)
  show ?thesis
    using C9_fitters_empty_sample_and_direction[of failing_numlib stable_argsort None "''Blom''" False "''z''" "[5, 6]"]
      stable_argsort_ok a b by simp
qed

text \<open>
  Claim C9, as stated: a fitter fails with EmptySample when no uncensored observation
  remains. On the empty sample \<open>gumbel_lsq\<close> raises nothing and returns \<open>None\<close>.
\<close>

theorem C9_empty_sample_returns_none:
  "gumbel_lsq failing_numlib stable_argsort [] None ''Blom'' False ''y'' = Inr None"
  by (simp add: gumbel_lsq_def lsq_prepare_def)

end
